theory Spec2Isabelle
  imports Complex_Main "HOL-Library.Sublist"
begin

section \<open>Python values used by the sources\<close>

text \<open>
  The sources are Python 2 (\<^verbatim>\<open>from StringIO import StringIO\<close>, a \<^verbatim>\<open>print\<close>
  statement, \<^verbatim>\<open>len(map(...))\<close>). Every exception the modelled code can raise is a
  value of \<open>error\<close>; a function that can raise returns \<open>error + 'a\<close> with \<open>Inl\<close> the
  exception. Assertions are taken as enabled, as they are unless the interpreter runs
  with \<^verbatim>\<open>-O\<close>.
\<close>

datatype error = AssertionError | ValueError | IndexError | KeyError

text \<open>
  A Python float is modelled by \<open>pyfloat\<close>: a finite value is the real number its
  decimal literal denotes (rounding to a double, overflow and the sign of zero are not
  modelled), and the special values \<^verbatim>\<open>float()\<close> also accepts are kept apart:
  \<open>Infinity neg\<close> is the infinity of that sign.
\<close>

datatype pyfloat = Fin real | Infinity bool | NaN

subsection \<open>\<^verbatim>\<open>str.strip()\<close>, \<^verbatim>\<open>str.split()\<close>, \<^verbatim>\<open>str.startswith\<close>, \<^verbatim>\<open>str.join\<close>\<close>

definition is_space :: "char \<Rightarrow> bool" where
  "is_space c \<longleftrightarrow>
     c = CHR '' '' \<or> c = CHR 0x09 \<or> c = CHR 0x0A \<or> c = CHR 0x0B \<or> c = CHR 0x0C \<or> c = CHR 0x0D"

definition strip :: "string \<Rightarrow> string" where
  "strip s = rev (dropWhile is_space (rev (dropWhile is_space s)))"

text \<open>\<open>split_aux w s\<close>: \<open>w\<close> is the word read so far, \<open>s\<close> what is left of the string.\<close>

fun split_aux :: "string \<Rightarrow> string \<Rightarrow> string list" where
  "split_aux w [] = (if w = [] then [] else [w])"
| "split_aux w (c # cs) =
     (if is_space c then (if w = [] then split_aux [] cs else w # split_aux [] cs)
      else split_aux (w @ [c]) cs)"

definition split :: "string \<Rightarrow> string list" where
  "split s = split_aux [] s"

fun startswith :: "string \<Rightarrow> string \<Rightarrow> bool" where
  "startswith s [] = True"
| "startswith [] (p # ps) = False"
| "startswith (c # cs) (p # ps) = (c = p \<and> startswith cs ps)"

text \<open>\<open>contains m s\<close> is Python's \<^verbatim>\<open>m in s\<close>: \<open>m\<close> occurs in \<open>s\<close> as a substring.\<close>

fun contains :: "string \<Rightarrow> string \<Rightarrow> bool" where
  "contains m [] = (m = [])"
| "contains m (c # cs) = (startswith (c # cs) m \<or> contains m cs)"

fun join :: "string \<Rightarrow> string list \<Rightarrow> string" where
  "join sep [] = []"
| "join sep [x] = x"
| "join sep (x # y # ys) = x @ sep @ join sep (y # ys)"

subsection \<open>\<^verbatim>\<open>float(token)\<close>\<close>

definition is_digit :: "char \<Rightarrow> bool" where
  "is_digit c \<longleftrightarrow> (48::nat) \<le> of_char c \<and> of_char c \<le> (57::nat)"

definition digit_val :: "char \<Rightarrow> nat" where
  "digit_val c = of_char c - 48"

definition digits_val :: "string \<Rightarrow> nat" where
  "digits_val ds = foldl (\<lambda>n c. 10 * n + digit_val c) 0 ds"

definition lower :: "char \<Rightarrow> char" where
  "lower c = (if (65::nat) \<le> of_char c \<and> of_char c \<le> (90::nat)
              then char_of (of_char c + (32::nat)) else c)"

text \<open>An optional sign in front of the rest of the token: \<open>True\<close> for a minus sign.\<close>

fun take_sign :: "string \<Rightarrow> bool \<times> string" where
  "take_sign [] = (False, [])"
| "take_sign (c # cs) =
     (if c = CHR ''-'' then (True, cs) else if c = CHR ''+'' then (False, cs)
      else (False, c # cs))"

text \<open>
  The exponent part of a literal: nothing, or \<^verbatim>\<open>e\<close>/\<^verbatim>\<open>E\<close>, an optional sign and
  at least one digit.
\<close>

definition parse_exponent :: "string \<Rightarrow> int option" where
  "parse_exponent s =
     (case s of
        [] \<Rightarrow> Some 0
      | c # cs \<Rightarrow>
          if c = CHR ''e'' \<or> c = CHR ''E'' then
            (case take_sign cs of (neg, ds) \<Rightarrow>
               if ds \<noteq> [] \<and> list_all is_digit ds
               then Some (if neg then - int (digits_val ds) else int (digits_val ds))
               else None)
          else None)"

text \<open>
  The unsigned decimal part: digits, an optional point and digits, with at least one
  digit in all, then the exponent.
\<close>

definition parse_decimal :: "string \<Rightarrow> real option" where
  "parse_decimal s =
     (let ip = takeWhile is_digit s; r1 = dropWhile is_digit s;
          (fp, r2) = (case r1 of
                        [] \<Rightarrow> ([], [])
                      | c # cs \<Rightarrow> if c = CHR ''.'' then (takeWhile is_digit cs, dropWhile is_digit cs)
                                  else ([], c # cs))
      in if ip = [] \<and> fp = [] then None
         else (case parse_exponent r2 of
                 None \<Rightarrow> None
               | Some e \<Rightarrow>
                   let m = real (digits_val (ip @ fp)); x = e - int (length fp)
                   in Some (if 0 \<le> x then m * 10 ^ nat x else m / 10 ^ nat (- x))))"

text \<open>
  \<^verbatim>\<open>float(s)\<close> on a token without white space: a signed decimal literal, or a
  signed \<^verbatim>\<open>inf\<close>, \<^verbatim>\<open>infinity\<close> or \<^verbatim>\<open>nan\<close> in any letter case; anything else raises
  \<^verbatim>\<open>ValueError\<close>.
\<close>

definition py_float :: "string \<Rightarrow> error + pyfloat" where
  "py_float s =
     (case take_sign s of (neg, body) \<Rightarrow>
        let lb = map lower body in
        if lb = ''inf'' \<or> lb = ''infinity'' then Inr (Infinity neg)
        else if lb = ''nan'' then Inr NaN
        else (case parse_decimal body of
                None \<Rightarrow> Inl ValueError
              | Some x \<Rightarrow> Inr (Fin (if neg then - x else x))))"

text \<open>\<^verbatim>\<open>map(float, tokens)\<close>: the first token that does not parse raises.\<close>

fun map_float :: "string list \<Rightarrow> error + pyfloat list" where
  "map_float [] = Inr []"
| "map_float (t # ts) =
     (case py_float t of
        Inl e \<Rightarrow> Inl e
      | Inr v \<Rightarrow> (case map_float ts of Inl e \<Rightarrow> Inl e | Inr vs \<Rightarrow> Inr (v # vs)))"

subsection \<open>Ordered dictionaries\<close>

text \<open>
  An \<^verbatim>\<open>OrderedDict\<close> is an association list in insertion order with distinct keys.
  \<open>od_set\<close> is item assignment: an existing key keeps its place.
\<close>

type_synonym 'v odict = "(string \<times> 'v) list"

fun od_set :: "'v odict \<Rightarrow> string \<Rightarrow> 'v \<Rightarrow> 'v odict" where
  "od_set [] k v = [(k, v)]"
| "od_set ((k', v') # d) k v = (if k' = k then (k, v) # d else (k', v') # od_set d k v)"

text \<open>\<^verbatim>\<open>collections.OrderedDict((k, []) for k in keys)\<close>\<close>

definition od_init :: "string list \<Rightarrow> pyfloat list odict" where
  "od_init ks = foldl (\<lambda>d k. od_set d k []) [] ks"

text \<open>\<^verbatim>\<open>d[k]\<close> and \<^verbatim>\<open>d.pop(k)\<close>, both raising \<^verbatim>\<open>KeyError\<close> on a missing key.\<close>

definition od_get :: "'v odict \<Rightarrow> string \<Rightarrow> error + 'v" where
  "od_get d k = (case map_of d k of None \<Rightarrow> Inl KeyError | Some v \<Rightarrow> Inr v)"

definition od_pop :: "'v odict \<Rightarrow> string \<Rightarrow> error + 'v odict" where
  "od_pop d k = (if k \<in> fst ` set d then Inr (filter (\<lambda>kv. fst kv \<noteq> k) d) else Inl KeyError)"

text \<open>
  \<^verbatim>\<open>for l, v in zip(fields.values(), tokens): l.append(v)\<close>: the columns are the
  list objects held by the dictionary, so appending changes the dictionary; \<^verbatim>\<open>zip\<close>
  stops at the shorter of the two.
\<close>

fun append_tokens :: "pyfloat list odict \<Rightarrow> pyfloat list \<Rightarrow> pyfloat list odict" where
  "append_tokens [] ts = []"
| "append_tokens (f # fs) [] = f # fs"
| "append_tokens ((k, l) # fs) (t # ts) = (k, l @ [t]) # append_tokens fs ts"

section \<open>\<^verbatim>\<open>abiinspect._magic_parser\<close>\<close>

text \<open>
  The stream is the list of lines still to be read; iterating consumes it, and the
  scanner returns what is left beside its result. \<open>magic_loop\<close> is the \<^verbatim>\<open>for\<close> loop
  with its three variables \<^verbatim>\<open>in_doc\<close>, \<^verbatim>\<open>fields\<close> and \<^verbatim>\<open>keys\<close> (\<^verbatim>\<open>keys\<close> is unbound
  in the source until the first header line; it is not read before).
\<close>

fun magic_loop ::
  "string \<Rightarrow> int \<Rightarrow> pyfloat list odict option \<Rightarrow> string list \<Rightarrow> string list
     \<Rightarrow> error + (pyfloat list odict option \<times> string list)" where
  "magic_loop magic in_doc fields keys [] = Inr (fields, [])"
| "magic_loop magic in_doc fields keys (raw # stream) =
     (let line = strip raw;
          hit = startswith line magic;
          keys' = (if hit then split line else keys);
          fields' = (if hit then Some (od_init (split line)) else fields)
      in case fields' of
           None \<Rightarrow> magic_loop magic in_doc None keys' stream
         | Some f \<Rightarrow>
             if in_doc + 1 = 1 then magic_loop magic (in_doc + 1) (Some f) keys' stream
             else if line = [] then Inr (Some f, stream)
             else (case map_float (tl (split line)) of
                     Inl e \<Rightarrow> Inl e
                   | Inr tokens \<Rightarrow>
                       if length tokens \<noteq> length keys' then Inl AssertionError
                       else magic_loop magic (in_doc + 1) (Some (append_tokens f tokens))
                              keys' stream))"

definition magic_parser ::
  "string list \<Rightarrow> string \<Rightarrow> error + (pyfloat list odict option \<times> string list)" where
  "magic_parser stream magic = magic_loop magic 0 None [] stream"

section \<open>\<^verbatim>\<open>abiinspect.ScfCycle\<close> and its two variants\<close>

text \<open>The attribute \<^verbatim>\<open>self.fields\<close> is the record field \<open>self_fields\<close>.\<close>

record scf_cycle =
  self_fields :: "pyfloat list odict"
  num_iterations :: nat

text \<open>
  \<^verbatim>\<open>ScfCycle.__init__\<close>: \<^verbatim>\<open>self.values()\<close> lists the columns in key order,
  \<^verbatim>\<open>all_lens[0]\<close> raises on a table without columns, and the assertion compares
  every column length with the first.
\<close>

definition ScfCycle_init :: "pyfloat list odict \<Rightarrow> error + scf_cycle" where
  "ScfCycle_init fs =
     (let all_lens = map (\<lambda>kv. length (snd kv)) fs
      in case all_lens of
           [] \<Rightarrow> Inl IndexError
         | n # _ \<Rightarrow>
             if list_all (\<lambda>m. m = n) all_lens
             then Inr \<lparr>self_fields = fs, num_iterations = n\<rparr>
             else Inl AssertionError)"

text \<open>\<^verbatim>\<open>ScfCycle.__getitem__\<close>\<close>

definition getitem :: "scf_cycle \<Rightarrow> string \<Rightarrow> error + pyfloat list" where
  "getitem c k = od_get (self_fields c) k"

text \<open>
  \<^verbatim>\<open>last_iteration\<close> is \<^verbatim>\<open>{k: v[-1] for k, v in self.items()}\<close>: the comprehension
  assigns key after key into a new dictionary, and \<^verbatim>\<open>v[-1]\<close> raises on an empty
  column.
\<close>

fun last_items :: "pyfloat odict \<Rightarrow> pyfloat list odict \<Rightarrow> error + pyfloat odict" where
  "last_items d [] = Inr d"
| "last_items d ((k, v) # kvs) =
     (if v = [] then Inl IndexError else last_items (od_set d k (last v)) kvs)"

definition last_iteration :: "scf_cycle \<Rightarrow> error + pyfloat odict" where
  "last_iteration c = last_items [] (self_fields c)"

text \<open>
  \<^verbatim>\<open>ScfCycle.from_stream\<close>, with the class attribute \<^verbatim>\<open>MAGIC\<close> of the variant as its
  first argument. \<^verbatim>\<open>if fields:\<close> is false for \<^verbatim>\<open>None\<close> and for an empty dictionary.
\<close>

definition from_stream ::
  "string \<Rightarrow> string list \<Rightarrow> error + (scf_cycle option \<times> string list)" where
  "from_stream MAGIC stream =
     (case magic_parser stream MAGIC of
        Inl e \<Rightarrow> Inl e
      | Inr (None, rest) \<Rightarrow> Inr (None, rest)
      | Inr (Some fs, rest) \<Rightarrow>
          if fs = [] then Inr (None, rest)
          else (case od_pop fs ''iter'' of
                  Inl e \<Rightarrow> Inl e
                | Inr fs' \<Rightarrow>
                    (case ScfCycle_init fs' of
                       Inl e \<Rightarrow> Inl e
                     | Inr c \<Rightarrow> Inr (Some c, rest))))"

definition GroundStateScfCycle_MAGIC :: string where
  "GroundStateScfCycle_MAGIC = ''iter   Etot(hartree)''"

definition PhononScfCycle_MAGIC :: string where
  "PhononScfCycle_MAGIC = ''iter   2DEtotal(Ha)''"

definition GroundStateScfCycle_from_stream ::
  "string list \<Rightarrow> error + (scf_cycle option \<times> string list)" where
  "GroundStateScfCycle_from_stream stream = from_stream GroundStateScfCycle_MAGIC stream"

text \<open>\<^verbatim>\<open>self[name][-1]\<close>, the body of both \<^verbatim>\<open>last_etotal\<close> properties.\<close>

definition last_of_column :: "scf_cycle \<Rightarrow> string \<Rightarrow> error + pyfloat" where
  "last_of_column c name =
     (case getitem c name of
        Inl e \<Rightarrow> Inl e
      | Inr v \<Rightarrow> if v = [] then Inl IndexError else Inr (last v))"

definition GroundStateScfCycle_last_etotal :: "scf_cycle \<Rightarrow> error + pyfloat" where
  "GroundStateScfCycle_last_etotal c = last_of_column c ''Etot(hartree)''"

definition PhononScfCycle_last_etotal :: "scf_cycle \<Rightarrow> error + pyfloat" where
  "PhononScfCycle_last_etotal c = last_of_column c ''2DEtotal(Ha)''"

section \<open>\<^verbatim>\<open>abiinspect.Relaxation\<close>\<close>

text \<open>
  The attribute \<^verbatim>\<open>_history\<close> does not exist until \<^verbatim>\<open>history\<close> is first read:
  \<open>history_cache\<close> is \<open>None\<close> until then.
\<close>

record relaxation =
  cycles :: "scf_cycle list"
  history_cache :: "pyfloat list odict option"

definition Relaxation_init :: "scf_cycle list \<Rightarrow> relaxation" where
  "Relaxation_init cs = \<lparr>cycles = cs, history_cache = None\<rparr>"

text \<open>
  \<^verbatim>\<open>Relaxation.from_stream\<close> loops \<^verbatim>\<open>while True\<close>. Every cycle that is found takes
  at least its header line off the stream, which is what makes the loop end; the two
  facts about the scanner that show it come first.
\<close>

lemma magic_loop_rest_le:
  "magic_loop m i fo ks s = Inr (r, rest) \<Longrightarrow> length rest \<le> length s"
proof (induction s arbitrary: i fo ks)
  case Nil
  then show ?case by simp
next
  case (Cons raw s)
  then show ?case
    by (fastforce simp: Let_def le_Suc_eq split: if_splits option.splits sum.splits)
qed

lemma magic_loop_None_lt:
  "magic_loop m i None ks s = Inr (Some f, rest) \<Longrightarrow> length rest < length s"
proof (induction s arbitrary: i ks)
  case Nil
  then show ?case by simp
next
  case (Cons raw s)
  show ?case
  proof (cases "startswith (strip raw) m")
    case True
    with Cons.prems show ?thesis
      by (auto simp: Let_def less_Suc_eq_le split: if_splits sum.splits dest: magic_loop_rest_le)
  next
    case False
    with Cons.prems have "magic_loop m i None ks s = Inr (Some f, rest)"
      by (simp add: Let_def)
    from Cons.IH [OF this] show ?thesis by simp
  qed
qed

lemma from_stream_shrinks:
  "from_stream M s = Inr (Some c, rest) \<Longrightarrow> length rest < length s"
  by (auto simp: from_stream_def magic_parser_def
           split: sum.splits option.splits if_splits prod.splits
           dest: magic_loop_None_lt)

function Relaxation_loop ::
  "scf_cycle list \<Rightarrow> string list \<Rightarrow> error + (scf_cycle list \<times> string list)" where
  "Relaxation_loop cs stream =
     (case GroundStateScfCycle_from_stream stream of
        Inl e \<Rightarrow> Inl e
      | Inr (None, rest) \<Rightarrow> Inr (cs, rest)
      | Inr (Some scf_cycle, rest) \<Rightarrow> Relaxation_loop (cs @ [scf_cycle]) rest)"
  by pat_completeness auto
termination
  by (relation "measure (\<lambda>(cs, stream). length stream)")
     (auto simp: GroundStateScfCycle_from_stream_def dest: from_stream_shrinks)

text \<open>\<^verbatim>\<open>return cls(cycles) if cycles else None\<close>\<close>

definition Relaxation_from_stream ::
  "string list \<Rightarrow> error + (relaxation option \<times> string list)" where
  "Relaxation_from_stream stream =
     (case Relaxation_loop [] stream of
        Inl e \<Rightarrow> Inl e
      | Inr (cs, rest) \<Rightarrow> Inr (if cs \<noteq> [] then Some (Relaxation_init cs) else None, rest))"

subsection \<open>\<^verbatim>\<open>Relaxation.history\<close>\<close>

text \<open>
  The history is a \<^verbatim>\<open>defaultdict(list)\<close>: reading a missing key gives the empty
  list, and \<^verbatim>\<open>history[k].append(v)\<close> creates the key when it is missing.
\<close>

definition dd_get :: "'v list odict \<Rightarrow> string \<Rightarrow> 'v list" where
  "dd_get h k = (case map_of h k of None \<Rightarrow> [] | Some l \<Rightarrow> l)"

definition dd_append :: "'v list odict \<Rightarrow> string \<Rightarrow> 'v \<Rightarrow> 'v list odict" where
  "dd_append h k v = od_set h k (dd_get h k @ [v])"

text \<open>\<^verbatim>\<open>for k, v in d.items(): history[k].append(v)\<close>\<close>

fun history_add :: "pyfloat list odict \<Rightarrow> pyfloat odict \<Rightarrow> pyfloat list odict" where
  "history_add h [] = h"
| "history_add h ((k, v) # d) = history_add (dd_append h k v) d"

text \<open>
  \<^verbatim>\<open>for cycle in self\<close>: the result is the dictionary as the loop left it and the
  exception, if \<^verbatim>\<open>cycle.last_iteration\<close> raised one.
\<close>

fun history_loop ::
  "pyfloat list odict \<Rightarrow> scf_cycle list \<Rightarrow> pyfloat list odict \<times> error option" where
  "history_loop h [] = (h, None)"
| "history_loop h (cycle # cs) =
     (case last_iteration cycle of
        Inl e \<Rightarrow> (h, Some e)
      | Inr d \<Rightarrow> history_loop (history_add h d) cs)"

text \<open>
  The property returns the cached dictionary when there is one. Otherwise it stores a
  new dictionary in \<^verbatim>\<open>self._history\<close> first and fills it afterwards, so the object
  keeps whatever was filled in when an exception ends the loop. The object is returned
  beside the result, since reading the property changes it.
\<close>

definition history :: "relaxation \<Rightarrow> (error + pyfloat list odict) \<times> relaxation" where
  "history r =
     (case history_cache r of
        Some h \<Rightarrow> (Inr h, r)
      | None \<Rightarrow>
          (case history_loop [] (cycles r) of
             (h, None) \<Rightarrow> (Inr h, r\<lparr>history_cache := Some h\<rparr>)
           | (h, Some e) \<Rightarrow> (Inl e, r\<lparr>history_cache := Some h\<rparr>)))"

section \<open>\<^verbatim>\<open>num_utils.monotonic\<close>\<close>

text \<open>
  The two \<^verbatim>\<open>for i in range(len(values)-1)\<close> loops compare each value with the next
  one and return \<^verbatim>\<open>False\<close> at the first pair that fails; they are recursions over
  the list. The values are numbers, modelled as reals.
\<close>

fun increasing_loop :: "real \<Rightarrow> real list \<Rightarrow> bool" where
  "increasing_loop atol (v # vp # vs) =
     (if \<bar>vp - v\<bar> > atol \<and> vp \<le> v then False else increasing_loop atol (vp # vs))"
| "increasing_loop atol vs = True"

fun decreasing_loop :: "real \<Rightarrow> real list \<Rightarrow> bool" where
  "decreasing_loop atol (v # vp # vs) =
     (if \<bar>vp - v\<bar> > atol \<and> vp \<ge> v then False else decreasing_loop atol (vp # vs))"
| "decreasing_loop atol vs = True"

definition monotonic :: "real list \<Rightarrow> string \<Rightarrow> real \<Rightarrow> error + bool" where
  "monotonic values mode atol =
     (if length values = 1 then Inr True
      else if mode = ''>'' then Inr (increasing_loop atol values)
      else if mode = ''<'' then Inr (decreasing_loop atol values)
      else Inl ValueError)"

text \<open>The defaults of the keyword arguments: \<^verbatim>\<open>mode="<"\<close> and \<^verbatim>\<open>atol=1.e-8\<close>.\<close>

definition monotonic_default_mode :: string where
  "monotonic_default_mode = ''<''"

definition monotonic_default_atol :: real where
  "monotonic_default_atol = 1 / 10 ^ 8"

section \<open>\<^verbatim>\<open>cost.CostDB.get_cost\<close>\<close>

text \<open>
  \<^verbatim>\<open>Composition\<close>, \<^verbatim>\<open>PDEntry\<close>, \<^verbatim>\<open>PhaseDiagram\<close> and \<^verbatim>\<open>PDAnalyzer\<close> are imported by
  \<^verbatim>\<open>cost.py\<close> from modules that are not part of the sources at hand. A composition is
  the record of the three attributes \<^verbatim>\<open>get_cost\<close> reads (\<open>elements\<close> holds the
  element symbols), an entry the record of what \<^verbatim>\<open>CostEntry.__init__\<close> stores, and
  the two library calls \<^verbatim>\<open>get_cost\<close> makes are parameters of the model:
  \<open>from_formula\<close> for \<^verbatim>\<open>Composition.from_formula\<close> and \<open>get_decomposition\<close> for
  \<^verbatim>\<open>PDAnalyzer(PhaseDiagram(entries)).get_decomposition(comp).iteritems()\<close>.
\<close>

record composition =
  elements :: "string list"
  reduced_formula :: string
  num_atoms :: real

record cost_entry =
  entry_composition :: composition
  energy :: real
  name :: string
  reference :: string

text \<open>
  \<^verbatim>\<open>_chemsys_entries\<close> is a \<^verbatim>\<open>defaultdict(list)\<close>, read here only: a function that
  gives the empty list for a chemical system without entries.
\<close>

record cost_db =
  chemsys_entries :: "string \<Rightarrow> cost_entry list"
  comp_energies :: "string \<rightharpoonup> real"

text \<open>\<^verbatim>\<open>itertools.combinations(xs, r)\<close>, in the order \<^verbatim>\<open>itertools\<close> yields them.\<close>

fun combinations :: "'a list \<Rightarrow> nat \<Rightarrow> 'a list list" where
  "combinations xs 0 = [[]]"
| "combinations [] (Suc r) = []"
| "combinations (x # xs) (Suc r) = map ((#) x) (combinations xs r) @ combinations xs (Suc r)"

text \<open>\<^verbatim>\<open>sorted\<close> on strings: insertion sort by the byte-wise order of Python 2 strings.\<close>

fun str_le :: "string \<Rightarrow> string \<Rightarrow> bool" where
  "str_le [] t = True"
| "str_le (c # cs) [] = False"
| "str_le (c # cs) (d # ds) =
     ((of_char c :: nat) < of_char d \<or> (c = d \<and> str_le cs ds))"

fun insert_sorted :: "string \<Rightarrow> string list \<Rightarrow> string list" where
  "insert_sorted x [] = [x]"
| "insert_sorted x (y # ys) = (if str_le x y then x # y # ys else y # insert_sorted x ys)"

definition sorted_strs :: "string list \<Rightarrow> string list" where
  "sorted_strs xs = foldr insert_sorted xs []"

text \<open>The two nested \<^verbatim>\<open>for\<close> loops that fill \<^verbatim>\<open>entries_list\<close>.\<close>

definition entries_list :: "cost_db \<Rightarrow> string list \<Rightarrow> cost_entry list" where
  "entries_list db els =
     concat (map (\<lambda>i. concat (map (\<lambda>combi. chemsys_entries db (join ''-'' (sorted_strs combi)))
                                   (combinations els (i + 1))))
                 [0 ..< length els])"

definition get_cost ::
  "(string \<Rightarrow> composition)
     \<Rightarrow> (cost_entry list \<Rightarrow> composition \<Rightarrow> error + (cost_entry \<times> real) list)
     \<Rightarrow> cost_db \<Rightarrow> composition \<Rightarrow> error + real" where
  "get_cost from_formula get_decomposition db c =
     (case comp_energies db (reduced_formula c) of
        Some e \<Rightarrow> Inr (e * num_atoms c)
      | None \<Rightarrow>
          (case get_decomposition (entries_list db (elements c)) (from_formula ''LiFeO2'') of
             Inl err \<Rightarrow> Inl err
           | Inr d \<Rightarrow> Inr (sum_list (map (\<lambda>(k, v). energy k * v * num_atoms c) d))))"

section \<open>Example streams\<close>

text \<open>
  The header line of a ground-state section with two data columns, a blank line, and
  the record that two data rows under that header give.
\<close>

definition header_line :: string where
  "header_line = ''iter   Etot(hartree)   deltaE(h)'' @ [CHR 0x0A]"

definition blank_line :: string where
  "blank_line = [CHR 0x0A]"

definition example_cycle :: scf_cycle where
  "example_cycle =
     \<lparr>self_fields = [(''Etot(hartree)'', [Fin (-8.86), Fin (-8.90)]),
                      (''deltaE(h)'', [Fin (-0.10), Fin (-0.04)])],
      num_iterations = 2\<rparr>"

text \<open>
  A second section with one data row, the stream of the two sections one after the
  other, and a stream whose middle section has a header line and no data row, with the
  cycles they give.
\<close>

definition second_section :: "string list" where
  "second_section = [header_line, ''ETOT 1  -9.00  -0.20'' @ [CHR 0x0A], blank_line]"

definition second_cycle :: scf_cycle where
  "second_cycle =
     \<lparr>self_fields = [(''Etot(hartree)'', [Fin (-9.00)]), (''deltaE(h)'', [Fin (-0.20)])],
      num_iterations = 1\<rparr>"

definition two_sections :: "string list" where
  "two_sections =
     [header_line, ''ETOT 1  -8.86  -0.10'' @ [CHR 0x0A], ''ETOT 2  -8.90  -0.04'' @ [CHR 0x0A],
      blank_line] @ second_section"

definition empty_cycle :: scf_cycle where
  "empty_cycle =
     \<lparr>self_fields = [(''Etot(hartree)'', []), (''deltaE(h)'', [])], num_iterations = 0\<rparr>"

definition with_empty_section :: "string list" where
  "with_empty_section = second_section @ [header_line, blank_line] @ second_section"

text \<open>
  A cost database with entries for iron, oxygen and one iron oxide, and the composition
  \<open>Fe2O3\<close>, for which the database has no precomputed energy.
\<close>

definition Fe2O3 :: composition where
  "Fe2O3 = \<lparr>elements = [''Fe'', ''O''], reduced_formula = ''Fe2O3'', num_atoms = 5\<rparr>"

definition Fe_entry :: cost_entry where
  "Fe_entry = \<lparr>entry_composition = \<lparr>elements = [''Fe''], reduced_formula = ''Fe'', num_atoms = 1\<rparr>,
               energy = 2, name = ''iron'', reference = []\<rparr>"

definition O_entry :: cost_entry where
  "O_entry = \<lparr>entry_composition = \<lparr>elements = [''O''], reduced_formula = ''O2'', num_atoms = 2\<rparr>,
              energy = 6, name = ''oxygen'', reference = []\<rparr>"

definition FeO_entry :: cost_entry where
  "FeO_entry = \<lparr>entry_composition = \<lparr>elements = [''Fe'', ''O''], reduced_formula = ''FeO'', num_atoms = 2\<rparr>,
                energy = 7, name = ''wustite'', reference = []\<rparr>"

definition example_db :: cost_db where
  "example_db =
     \<lparr>chemsys_entries = (\<lambda>s. if s = ''Fe'' then [Fe_entry] else if s = ''O'' then [O_entry]
                               else if s = ''Fe-O'' then [FeO_entry] else []),
      comp_energies = [''Fe'' \<mapsto> 2, ''O2'' \<mapsto> 3, ''FeO'' \<mapsto> 7 / 2]\<rparr>"

section \<open>Properties of the scanner\<close>

subsection \<open>Streams without the marker\<close>

lemma startswith_prefix: "startswith s p \<longleftrightarrow> prefix p s"
  by (induction s p rule: startswith.induct) auto

lemma contains_sublist: "contains m s \<longleftrightarrow> sublist m s"
  by (induction s) (auto simp: startswith_prefix sublist_Cons_right)

lemma sublist_trans: "sublist xs ys \<Longrightarrow> sublist ys zs \<Longrightarrow> sublist xs zs"
proof -
  assume "sublist xs ys" and "sublist ys zs"
  then obtain a b c d where "ys = a @ xs @ b" and "zs = c @ ys @ d"
    unfolding sublist_def by blast
  then have "zs = (c @ a) @ xs @ (b @ d)" by simp
  then show ?thesis unfolding sublist_def by blast
qed

lemma rev_dropWhile_takeWhile:
  "rev (dropWhile P (rev xs)) @ rev (takeWhile P (rev xs)) = xs"
proof -
  have "rev (takeWhile P (rev xs) @ dropWhile P (rev xs)) = xs"
    by (simp only: takeWhile_dropWhile_id rev_rev_ident)
  then show ?thesis by (simp only: rev_append)
qed

lemma strip_sublist: "sublist (strip l) l"
proof -
  let ?d = "dropWhile is_space l"
  have "l = takeWhile is_space l @ ?d"
    by simp
  also have "?d = strip l @ rev (takeWhile is_space (rev ?d))"
    unfolding strip_def by (rule rev_dropWhile_takeWhile [symmetric])
  finally show ?thesis unfolding sublist_def by blast
qed

lemma startswith_strip_contains: "startswith (strip l) m \<Longrightarrow> contains m l"
  unfolding startswith_prefix contains_sublist
  using prefix_imp_sublist strip_sublist sublist_trans by blast

lemma contains_concat: "l \<in> set stream \<Longrightarrow> contains m l \<Longrightarrow> contains m (concat stream)"
proof -
  assume "l \<in> set stream" and c: "contains m l"
  then obtain a b where "stream = a @ l # b" by (meson split_list)
  then have "concat stream = concat a @ l @ concat b" by simp
  then have "sublist l (concat stream)" by (metis sublist_appendI)
  with c show ?thesis unfolding contains_sublist using sublist_trans by blast
qed

lemma magic_loop_no_header:
  "\<forall>l\<in>set stream. \<not> startswith (strip l) magic \<Longrightarrow>
     magic_loop magic i None ks stream = Inr (None, [])"
  by (induction stream arbitrary: i ks) (simp_all add: Let_def)

text \<open>
  Claim C5. On a stream in which the marker does not occur, the scanner returns
  \<^verbatim>\<open>None\<close> without raising and has read the stream to its end. It is enough that
  no stripped line starts with the marker, which is what the scanner tests, and the
  empty stream gives \<^verbatim>\<open>None\<close> for every marker.
\<close>

theorem magic_parser_absent:
  "(\<not> contains magic (concat stream) \<longrightarrow> magic_parser stream magic = Inr (None, []))
   \<and> ((\<forall>l\<in>set stream. \<not> startswith (strip l) magic) \<longrightarrow>
        magic_parser stream magic = Inr (None, []))
   \<and> magic_parser [] magic = Inr (None, [])"
proof (intro conjI impI)
  assume "\<not> contains magic (concat stream)"
  then have "\<forall>l\<in>set stream. \<not> startswith (strip l) magic"
    using contains_concat startswith_strip_contains by blast
  then show "magic_parser stream magic = Inr (None, [])"
    by (simp add: magic_parser_def magic_loop_no_header)
next
  assume "\<forall>l\<in>set stream. \<not> startswith (strip l) magic"
  then show "magic_parser stream magic = Inr (None, [])"
    by (simp add: magic_parser_def magic_loop_no_header)
next
  show "magic_parser [] magic = Inr (None, [])"
    by (simp add: magic_parser_def)
qed

theorem magic_parser_absent_witness:
  "\<not> contains ''iter'' (concat [''it er'' @ [CHR 0x0A], ''vres2 iteX''])
   \<and> \<not> startswith (strip (''it er'' @ [CHR 0x0A])) ''iter''
   \<and> \<not> startswith (strip ''vres2 iteX'') ''iter''
   \<and> magic_parser [''it er'' @ [CHR 0x0A], ''vres2 iteX''] ''iter'' = Inr (None, [])"
  using magic_parser_absent [of "''iter''" "[''it er'' @ [CHR 0x0A], ''vres2 iteX'']"]
  by (simp add: strip_def is_space_def)

subsection \<open>Inside a section\<close>

lemma magic_loop_skip:
  "\<forall>l\<in>set pre. \<not> startswith (strip l) magic \<Longrightarrow>
     magic_loop magic i None ks (pre @ s) = magic_loop magic i None ks s"
  by (induction pre arbitrary: i ks) (simp_all add: Let_def)

lemma magic_loop_header:
  "startswith (strip hdr) magic \<Longrightarrow>
     magic_loop magic 0 fo ks (hdr # s)
       = magic_loop magic 1 (Some (od_init (split (strip hdr)))) (split (strip hdr)) s"
  by (simp add: Let_def)

lemma map_float_length: "map_float ts = Inr vs \<Longrightarrow> length vs = length ts"
  by (induction ts arbitrary: vs) (auto split: sum.splits)

lemma split_aux_word: "w \<noteq> [] \<Longrightarrow> split_aux w s \<noteq> []"
  by (induction s arbitrary: w) auto

lemma dropWhile_space_split: "dropWhile is_space s \<noteq> [] \<Longrightarrow> split_aux [] s \<noteq> []"
  by (induction s) (auto simp: split_aux_word)

lemma strip_nonempty_split: "strip l \<noteq> [] \<Longrightarrow> split (strip l) \<noteq> []"
proof -
  assume n: "strip l \<noteq> []"
  then obtain c cs where cs: "strip l = c # cs"
    by (cases "strip l") auto
  have "\<exists>zs. dropWhile is_space l = strip l @ zs"
    unfolding strip_def
    using rev_dropWhile_takeWhile [of is_space "dropWhile is_space l"] by metis
  with cs obtain zs where z: "dropWhile is_space l = c # (cs @ zs)"
    by auto
  have d: "dropWhile is_space l \<noteq> []" and h: "hd (dropWhile is_space l) = c"
    by (simp_all only: z list.sel list.distinct not_False_eq_True)
  from d have "\<not> is_space (hd (dropWhile is_space l))"
    by (rule hd_dropWhile)
  with h cs have "dropWhile is_space (strip l) = strip l"
    by simp
  with n show ?thesis
    unfolding split_def by (metis dropWhile_space_split)
qed

lemma py_float_error: "py_float t = Inl e \<Longrightarrow> e = ValueError"
  by (auto simp: py_float_def Let_def split: prod.splits if_splits option.splits)

lemma map_float_error: "map_float ts = Inl e \<Longrightarrow> e = ValueError"
  by (induction ts) (auto split: sum.splits dest: py_float_error)

lemma data_line_mismatch:
  assumes "strip l \<noteq> []" and "0 < i"
    and "startswith (strip l) magic \<or> length (tl (split (strip l))) \<noteq> length ks"
  shows "\<exists>e. magic_loop magic i (Some f) ks (l # s) = Inl e \<and> (e = AssertionError \<or> e = ValueError)"
    and "map_float (tl (split (strip l))) = Inr vs \<Longrightarrow>
           magic_loop magic i (Some f) ks (l # s) = Inl AssertionError"
proof -
  let ?ts = "tl (split (strip l))"
  let ?ks = "if startswith (strip l) magic then split (strip l) else ks"
  have neq: "length ?ts \<noteq> length ?ks"
    using assms(1,3) strip_nonempty_split [of l] by (cases "split (strip l)") auto
  have err: "map_float ?ts = Inl e \<Longrightarrow> e = ValueError" for e
    by (rule map_float_error)
  show "\<exists>e. magic_loop magic i (Some f) ks (l # s) = Inl e \<and> (e = AssertionError \<or> e = ValueError)"
    using assms(1,2) neq err
    by (cases "map_float ?ts") (auto simp: Let_def dest: map_float_length)
  show "map_float ?ts = Inr vs \<Longrightarrow> magic_loop magic i (Some f) ks (l # s) = Inl AssertionError"
    using assms(1,2) neq
    by (auto simp: Let_def dest: map_float_length)
qed

lemma body_then_mismatch:
  assumes "\<forall>l\<in>set body. strip l \<noteq> []" and "0 < i" and "strip bad \<noteq> []"
    and "startswith (strip bad) magic \<or> length (tl (split (strip bad))) \<noteq> length ks"
  shows "\<exists>e. magic_loop magic i (Some f) ks (body @ bad # rest) = Inl e
              \<and> (e = AssertionError \<or> e = ValueError)"
  using assms(1,2)
proof (induction body arbitrary: i f)
  case Nil
  then show ?case
    using data_line_mismatch(1) [OF assms(3) _ assms(4)] by simp
next
  case (Cons l body)
  from Cons.prems have l: "strip l \<noteq> []" and i: "0 < i" and i1: "0 < i + 1"
    by simp_all
  let ?ts = "tl (split (strip l))"
  show ?case
  proof (cases "startswith (strip l) magic \<or> length ?ts \<noteq> length ks")
    case True
    with data_line_mismatch(1) [OF l i] show ?thesis by simp
  next
    case False
    show ?thesis
    proof (cases "map_float ?ts")
      case (Inl e)
      with False l i map_float_error [OF Inl] show ?thesis
        by (simp add: Let_def)
    next
      case (Inr vs)
      with False l i map_float_length [OF Inr]
      have "magic_loop magic i (Some f) ks ((l # body) @ bad # rest)
              = magic_loop magic (i + 1) (Some (append_tokens f vs)) ks (body @ bad # rest)"
        by (simp add: Let_def)
      with Cons.IH [OF _ i1] Cons.prems(1) show ?thesis by simp
    qed
  qed
qed

lemma good_body_steps:
  assumes "\<forall>l\<in>set body. strip l \<noteq> [] \<and> \<not> startswith (strip l) magic
             \<and> (\<exists>vs. map_float (tl (split (strip l))) = Inr vs \<and> length vs = length ks)"
    and "0 < i"
  shows "\<exists>f' i'. 0 < i' \<and> (\<forall>s. magic_loop magic i (Some f) ks (body @ s)
                                = magic_loop magic i' (Some f') ks s)"
  using assms
proof (induction body arbitrary: i f)
  case Nil
  then show ?case by auto
next
  case (Cons l body)
  from Cons.prems obtain vs where l: "strip l \<noteq> []" "\<not> startswith (strip l) magic"
      "map_float (tl (split (strip l))) = Inr vs" "length vs = length ks"
    by auto
  from Cons.prems have i: "0 < i" and i1: "0 < i + 1" by simp_all
  from l i have step: "magic_loop magic i (Some f) ks ((l # body) @ s)
      = magic_loop magic (i + 1) (Some (append_tokens f vs)) ks (body @ s)" for s
    by (simp add: Let_def)
  from Cons.IH [OF _ i1, of "append_tokens f vs"] Cons.prems(1)
  obtain f' i' where "0 < i'"
    and "\<forall>s. magic_loop magic (i + 1) (Some (append_tokens f vs)) ks (body @ s)
             = magic_loop magic i' (Some f') ks s"
    by auto
  with step show ?case by auto
qed

text \<open>
  Claim C4. Once a header line has been found and no blank line has ended the section,
  a data line whose number of tokens after the row label differs from the number of
  header columns makes the scanner raise: no table is returned. The exception is the
  \<^verbatim>\<open>AssertionError\<close> of the count check when the lines before it were well formed
  and the tokens of the line itself all parse; a token that does not parse raises
  \<^verbatim>\<open>ValueError\<close> before the count is checked.
\<close>

theorem magic_parser_count_mismatch:
  assumes "\<forall>l\<in>set pre. \<not> startswith (strip l) magic"
    and "startswith (strip hdr) magic"
    and "\<forall>l\<in>set body. strip l \<noteq> []"
    and "strip bad \<noteq> []"
    and "length (tl (split (strip bad))) \<noteq> length (split (strip hdr))"
  shows "(\<exists>e. magic_parser (pre @ hdr # body @ bad # rest) magic = Inl e
               \<and> (e = AssertionError \<or> e = ValueError))
         \<and> ((\<forall>l\<in>set body. \<not> startswith (strip l) magic
                \<and> (\<exists>vs. map_float (tl (split (strip l))) = Inr vs
                         \<and> length vs = length (split (strip hdr))))
              \<and> (\<exists>vs. map_float (tl (split (strip bad))) = Inr vs)
             \<longrightarrow> magic_parser (pre @ hdr # body @ bad # rest) magic = Inl AssertionError)"
proof -
  let ?ks = "split (strip hdr)"
  let ?f = "od_init ?ks"
  have start: "magic_parser (pre @ hdr # s) magic = magic_loop magic 1 (Some ?f) ?ks s" for s
    unfolding magic_parser_def
    by (simp only: magic_loop_skip [OF assms(1)] magic_loop_header [OF assms(2)])
  have bad: "startswith (strip bad) magic \<or> length (tl (split (strip bad))) \<noteq> length ?ks"
    using assms(5) by simp
  have one: "\<exists>e. magic_parser (pre @ hdr # body @ bad # rest) magic = Inl e
               \<and> (e = AssertionError \<or> e = ValueError)"
    unfolding start
    by (rule body_then_mismatch [OF assms(3) _ assms(4) bad]) simp
  have two: "magic_parser (pre @ hdr # body @ bad # rest) magic = Inl AssertionError"
    if good: "\<forall>l\<in>set body. \<not> startswith (strip l) magic
                \<and> (\<exists>vs. map_float (tl (split (strip l))) = Inr vs \<and> length vs = length ?ks)"
      and parses: "\<exists>vs. map_float (tl (split (strip bad))) = Inr vs"
  proof -
    from good assms(3)
    have "\<forall>l\<in>set body. strip l \<noteq> [] \<and> \<not> startswith (strip l) magic
             \<and> (\<exists>vs. map_float (tl (split (strip l))) = Inr vs \<and> length vs = length ?ks)"
      by blast
    from good_body_steps [OF this, of 1 ?f]
    obtain f' i' where i': "0 < i'"
      and run: "\<And>s. magic_loop magic 1 (Some ?f) ?ks (body @ s) = magic_loop magic i' (Some f') ?ks s"
      by auto
    from parses obtain vs where vs: "map_float (tl (split (strip bad))) = Inr vs" by blast
    show ?thesis
      unfolding start run
      by (rule data_line_mismatch(2) [OF assms(4) i' bad vs])
  qed
  from one two show ?thesis by blast
qed

lemmas scan_eval = magic_parser_def strip_def split_def is_space_def od_init_def py_float_def
  parse_decimal_def parse_exponent_def is_digit_def digits_val_def digit_val_def lower_def

theorem magic_parser_count_mismatch_witness:
  "\<not> startswith (strip ''junk'') ''iter   Etot(hartree)''
   \<and> startswith (strip header_line) ''iter   Etot(hartree)''
   \<and> strip (''ETOT 1 -8.86 -0.10'' @ [CHR 0x0A]) \<noteq> []
   \<and> \<not> startswith (strip (''ETOT 1 -8.86 -0.10'' @ [CHR 0x0A])) ''iter   Etot(hartree)''
   \<and> map_float (tl (split (strip (''ETOT 1 -8.86 -0.10'' @ [CHR 0x0A]))))
       = Inr [Fin 1, Fin (-8.86), Fin (-0.10)]
   \<and> length [Fin 1, Fin (-8.86), Fin (-0.10)] = length (split (strip header_line))
   \<and> strip (''ETOT 2 -8.90'' @ [CHR 0x0A]) \<noteq> []
   \<and> length (tl (split (strip (''ETOT 2 -8.90'' @ [CHR 0x0A])))) \<noteq> length (split (strip header_line))
   \<and> map_float (tl (split (strip (''ETOT 2 -8.90'' @ [CHR 0x0A])))) = Inr [Fin 2, Fin (-8.90)]
   \<and> magic_parser [''junk'', header_line, ''ETOT 1 -8.86 -0.10'' @ [CHR 0x0A],
                     ''ETOT 2 -8.90'' @ [CHR 0x0A], blank_line] ''iter   Etot(hartree)''
       = Inl AssertionError"
  using magic_parser_count_mismatch [of "[''junk'']" "''iter   Etot(hartree)''" header_line
      "[''ETOT 1 -8.86 -0.10'' @ [CHR 0x0A]]" "''ETOT 2 -8.90'' @ [CHR 0x0A]" "[blank_line]"]
  by (simp add: scan_eval header_line_def blank_line_def)








subsection \<open>The example section of the specification\<close>

text \<open>
  With the data lines \<^verbatim>\<open>"1  -8.86  -0.10"\<close> and \<^verbatim>\<open>"2  -8.90  -0.04"\<close> under the
  three-column header, dropping the first token leaves two numbers for three header
  columns, and the count check fails on the first data line.
\<close>

theorem spec_example_raises:
  "GroundStateScfCycle_from_stream
     [header_line, ''1  -8.86  -0.10'' @ [CHR 0x0A], ''2  -8.90  -0.04'' @ [CHR 0x0A], blank_line]
     = Inl AssertionError"
  by (simp add: GroundStateScfCycle_from_stream_def GroundStateScfCycle_MAGIC_def from_stream_def
        scan_eval header_line_def blank_line_def)

text \<open>
  Claim C2, as the code has it. When each data line carries a row label before the
  iteration number, as the lines of an Abinit output do (\<^verbatim>\<open>ETOT  1  ...\<close>), the
  stream of the header line, the two data lines and a blank line parses as a
  ground-state cycle with two iterations, the column \<^verbatim>\<open>Etot(hartree)\<close> equal to
  \<open>[-8.86, -8.90]\<close>, the last iteration \<open>{Etot(hartree): -8.90, deltaE(h): -0.04}\<close> and
  the last total energy \<open>-8.90\<close>.
\<close>

theorem labelled_example_record:
  "GroundStateScfCycle_from_stream
     [header_line, ''ETOT 1  -8.86  -0.10'' @ [CHR 0x0A], ''ETOT 2  -8.90  -0.04'' @ [CHR 0x0A],
      blank_line]
     = Inr (Some example_cycle, [])
   \<and> num_iterations example_cycle = 2
   \<and> getitem example_cycle ''Etot(hartree)'' = Inr [Fin (-8.86), Fin (-8.90)]
   \<and> last_iteration example_cycle
       = Inr [(''Etot(hartree)'', Fin (-8.90)), (''deltaE(h)'', Fin (-0.04))]
   \<and> GroundStateScfCycle_last_etotal example_cycle = Inr (Fin (-8.90))"
  by (simp add: GroundStateScfCycle_from_stream_def GroundStateScfCycle_MAGIC_def from_stream_def
        od_pop_def ScfCycle_init_def example_cycle_def getitem_def od_get_def last_iteration_def
        GroundStateScfCycle_last_etotal_def last_of_column_def
        scan_eval header_line_def blank_line_def)

section \<open>Properties of \<^verbatim>\<open>ScfCycle\<close>\<close>

text \<open>
  Claim C6. A record that \<^verbatim>\<open>ScfCycle.__init__\<close> constructs holds the table it was
  given, and every column read through \<^verbatim>\<open>__getitem__\<close> has \<^verbatim>\<open>num_iterations\<close>
  entries. A table with two columns of different lengths is refused: the constructor
  raises the \<^verbatim>\<open>AssertionError\<close> of its consistency check and makes no record.
\<close>

theorem ScfCycle_init_lengths:
  "(ScfCycle_init fs = Inr c \<longrightarrow>
      self_fields c = fs
      \<and> (\<forall>k col. getitem c k = Inr col \<longrightarrow> length col = num_iterations c))
   \<and> ((\<exists>a\<in>set fs. \<exists>b\<in>set fs. length (snd a) \<noteq> length (snd b)) \<longrightarrow>
        ScfCycle_init fs = Inl AssertionError)"
proof (intro conjI impI)
  assume ok: "ScfCycle_init fs = Inr c"
  then obtain kv rest where fs: "fs = kv # rest"
    by (cases fs) (auto simp: ScfCycle_init_def)
  from ok fs have all: "\<forall>x\<in>set fs. length (snd x) = length (snd kv)"
    and c: "c = \<lparr>self_fields = fs, num_iterations = length (snd kv)\<rparr>"
    by (auto simp: ScfCycle_init_def list_all_iff split: if_splits)
  from c show "self_fields c = fs" by simp
  show "\<forall>k col. getitem c k = Inr col \<longrightarrow> length col = num_iterations c"
  proof (intro allI impI)
    fix k col
    assume "getitem c k = Inr col"
    with c have "map_of fs k = Some col"
      by (auto simp: getitem_def od_get_def split: option.splits)
    then have "(k, col) \<in> set fs" by (rule map_of_SomeD)
    with all have "length (snd (k, col)) = length (snd kv)" by blast
    with c show "length col = num_iterations c" by simp
  qed
next
  assume "\<exists>a\<in>set fs. \<exists>b\<in>set fs. length (snd a) \<noteq> length (snd b)"
  then obtain a b where ab: "a \<in> set fs" "b \<in> set fs" "length (snd a) \<noteq> length (snd b)"
    by blast
  then obtain kv rest where fs: "fs = kv # rest"
    by (cases fs) auto
  have "\<exists>x\<in>set fs. length (snd x) \<noteq> length (snd kv)"
  proof (cases "length (snd a) = length (snd kv)")
    case True
    with ab(3) have "length (snd b) \<noteq> length (snd kv)" by simp
    with ab(2) show ?thesis by blast
  next
    case False
    with ab(1) show ?thesis by blast
  qed
  then have "\<not> list_all (\<lambda>m. m = length (snd kv)) (map (\<lambda>kv. length (snd kv)) fs)"
    by (auto simp: list_all_iff)
  with fs show "ScfCycle_init fs = Inl AssertionError"
    by (simp add: ScfCycle_init_def)
qed

theorem ScfCycle_init_lengths_witness:
  "ScfCycle_init [(''a'', [Fin 1, Fin 2]), (''b'', [Fin 3, Fin 4])]
     = Inr \<lparr>self_fields = [(''a'', [Fin 1, Fin 2]), (''b'', [Fin 3, Fin 4])], num_iterations = 2\<rparr>
   \<and> getitem \<lparr>self_fields = [(''a'', [Fin 1, Fin 2]), (''b'', [Fin 3, Fin 4])], num_iterations = 2\<rparr> ''b''
       = Inr [Fin 3, Fin 4]
   \<and> length [Fin 3, Fin 4]
       = num_iterations \<lparr>self_fields = [(''a'', [Fin 1, Fin 2]), (''b'', [Fin 3, Fin 4])], num_iterations = 2\<rparr>
   \<and> length (snd (''a'', [Fin 1])) \<noteq> length (snd (''b'', [] :: pyfloat list))
   \<and> ScfCycle_init [(''a'', [Fin 1]), (''b'', [])] = Inl AssertionError"
proof -
  let ?fs = "[(''a'', [Fin 1, Fin 2]), (''b'', [Fin 3, Fin 4])]"
  let ?c = "\<lparr>self_fields = ?fs, num_iterations = 2\<rparr>"
  let ?bad = "[(''a'', [Fin 1]), (''b'', [] :: pyfloat list)]"
  have init: "ScfCycle_init ?fs = Inr ?c"
    by (simp add: ScfCycle_init_def)
  have get: "getitem ?c ''b'' = Inr [Fin 3, Fin 4]"
    by (simp add: getitem_def od_get_def)
  from ScfCycle_init_lengths [of ?fs ?c] init get
  have len: "length [Fin 3, Fin 4] = num_iterations ?c"
    by blast
  have neq: "length (snd (''a'', [Fin 1])) \<noteq> length (snd (''b'', [] :: pyfloat list))"
    by simp
  have "\<exists>a\<in>set ?bad. \<exists>b\<in>set ?bad. length (snd a) \<noteq> length (snd b)"
    by simp
  with ScfCycle_init_lengths [of ?bad] have "ScfCycle_init ?bad = Inl AssertionError"
    by blast
  with init get len neq show ?thesis by blast
qed

section \<open>Properties of \<^verbatim>\<open>Relaxation.from_stream\<close>\<close>

text \<open>
  The equation of the loop is used one step at a time. The cycles collected so far
  only ever get new cycles appended behind them.
\<close>

declare Relaxation_loop.simps [simp del]

lemma Relaxation_loop_acc:
  "Relaxation_loop cs s =
     (case Relaxation_loop [] s of Inl e \<Rightarrow> Inl e | Inr (cs', rest) \<Rightarrow> Inr (cs @ cs', rest))"
proof (induction s arbitrary: cs rule: measure_induct_rule [where f = length])
  case (less s)
  show ?case
  proof (cases "GroundStateScfCycle_from_stream s")
    case (Inl e)
    then show ?thesis by (simp add: Relaxation_loop.simps [of _ s])
  next
    case (Inr p)
    obtain co rest where p: "p = (co, rest)" by (cases p)
    show ?thesis
    proof (cases co)
      case None
      with Inr p show ?thesis by (simp add: Relaxation_loop.simps [of _ s])
    next
      case (Some c)
      with Inr p have "length rest < length s"
        by (auto simp: GroundStateScfCycle_from_stream_def dest: from_stream_shrinks)
      from less [OF this, of "cs @ [c]"] less [OF this, of "[c]"] Inr p Some
      show ?thesis
        by (simp add: Relaxation_loop.simps [of _ s] split: sum.splits prod.splits)
    qed
  qed
qed

lemma Relaxation_from_stream_error:
  "GroundStateScfCycle_from_stream s = Inl e \<Longrightarrow> Relaxation_from_stream s = Inl e"
  by (simp add: Relaxation_from_stream_def Relaxation_loop.simps [of _ s])

lemma Relaxation_from_stream_None:
  "GroundStateScfCycle_from_stream s = Inr (None, rest) \<Longrightarrow>
     Relaxation_from_stream s = Inr (None, rest)"
  by (simp add: Relaxation_from_stream_def Relaxation_loop.simps [of _ s])

lemma Relaxation_from_stream_Some:
  "GroundStateScfCycle_from_stream s = Inr (Some c, rest) \<Longrightarrow>
     Relaxation_from_stream s =
       (case Relaxation_from_stream rest of
          Inl e \<Rightarrow> Inl e
        | Inr (None, rest') \<Rightarrow> Inr (Some (Relaxation_init [c]), rest')
        | Inr (Some r, rest') \<Rightarrow> Inr (Some (Relaxation_init (c # cycles r)), rest'))"
  using Relaxation_loop_acc [of "[c]" rest]
  by (simp add: Relaxation_from_stream_def Relaxation_loop.simps [of "[]" s] Relaxation_init_def
           split: sum.splits prod.splits)

lemma Relaxation_from_stream_nonempty:
  "Relaxation_from_stream s = Inr (Some r, rest) \<Longrightarrow> cycles r \<noteq> [] \<and> history_cache r = None"
  by (auto simp: Relaxation_from_stream_def Relaxation_init_def
           split: sum.splits prod.splits if_splits)

lemma Relaxation_from_stream_absent:
  "Relaxation_from_stream s = Inr (None, rest) \<longleftrightarrow> Relaxation_loop [] s = Inr ([], rest)"
  by (auto simp: Relaxation_from_stream_def split: sum.splits prod.splits if_splits)

text \<open>
  The specification's words for what the loop collects: \<open>scans s cs rest\<close> says that
  successive calls of \<^verbatim>\<open>GroundStateScfCycle.from_stream\<close>, each on what the call
  before it left of the stream \<open>s\<close>, find the cycles \<open>cs\<close> one after the other, that
  the call after the last of them finds nothing, and that \<open>rest\<close> is then left.
\<close>

fun scans :: "string list \<Rightarrow> scf_cycle list \<Rightarrow> string list \<Rightarrow> bool" where
  "scans s [] rest = (GroundStateScfCycle_from_stream s = Inr (None, rest))"
| "scans s (c # cs) rest =
     (case GroundStateScfCycle_from_stream s of
        Inl e \<Rightarrow> False
      | Inr (None, mid) \<Rightarrow> False
      | Inr (Some c', mid) \<Rightarrow> c' = c \<and> scans mid cs rest)"

lemma scans_Cons:
  "scans s (c # cs) rest \<longleftrightarrow>
     (\<exists>mid. GroundStateScfCycle_from_stream s = Inr (Some c, mid) \<and> scans mid cs rest)"
  by (auto split: sum.splits prod.splits option.splits)

lemma scans_result:
  "scans s cs rest \<Longrightarrow>
     Relaxation_from_stream s
       = Inr (if cs = [] then None else Some \<lparr>cycles = cs, history_cache = None\<rparr>, rest)"
proof (induction cs arbitrary: s)
  case Nil
  then show ?case by (simp add: Relaxation_from_stream_None)
next
  case (Cons c cs)
  from Cons.prems obtain mid
    where gs: "GroundStateScfCycle_from_stream s = Inr (Some c, mid)" and sc: "scans mid cs rest"
    unfolding scans_Cons by blast
  from Cons.IH [OF sc] Relaxation_from_stream_Some [OF gs] show ?case
    by (simp add: Relaxation_init_def)
qed

lemma result_scans:
  "Relaxation_from_stream s = Inr (ro, rest) \<Longrightarrow>
     scans s (case ro of None \<Rightarrow> [] | Some r \<Rightarrow> cycles r) rest
     \<and> (\<forall>r. ro = Some r \<longrightarrow> cycles r \<noteq> [] \<and> history_cache r = None)"
proof (induction s arbitrary: ro rule: measure_induct_rule [where f = length])
  case (less s)
  show ?case
  proof (cases "GroundStateScfCycle_from_stream s")
    case (Inl e)
    from Relaxation_from_stream_error [OF Inl] less.prems show ?thesis by simp
  next
    case (Inr p)
    obtain co mid where p: "p = (co, mid)" by (cases p)
    show ?thesis
    proof (cases co)
      case None
      with Inr p have gs: "GroundStateScfCycle_from_stream s = Inr (None, mid)" by simp
      from Relaxation_from_stream_None [OF gs] less.prems gs show ?thesis by simp
    next
      case (Some c)
      with Inr p have gs: "GroundStateScfCycle_from_stream s = Inr (Some c, mid)" by simp
      then have shorter: "length mid < length s"
        by (auto simp: GroundStateScfCycle_from_stream_def dest: from_stream_shrinks)
      from Relaxation_from_stream_Some [OF gs] less.prems
      obtain ro' where mid: "Relaxation_from_stream mid = Inr (ro', rest)"
        and ro: "ro = Some \<lparr>cycles = c # (case ro' of None \<Rightarrow> [] | Some r \<Rightarrow> cycles r),
                             history_cache = None\<rparr>"
        by (auto simp: Relaxation_init_def split: sum.splits prod.splits option.splits)
      from less.IH [OF shorter mid]
      have "scans mid (case ro' of None \<Rightarrow> [] | Some r \<Rightarrow> cycles r) rest" by blast
      with gs ro show ?thesis by (simp add: scans_Cons)
    qed
  qed
qed

text \<open>
  Claim C7. \<^verbatim>\<open>Relaxation.from_stream\<close> calls \<^verbatim>\<open>GroundStateScfCycle.from_stream\<close> on
  the stream again and again until a call finds nothing. An exception of the first call
  is the exception of the whole; when the first call finds nothing the result is
  \<^verbatim>\<open>None\<close>; when it finds a cycle, the result holds that cycle followed by the cycles
  found in the rest of the stream. When the successive calls find the cycles \<open>cs\<close> and
  then nothing, the result is \<^verbatim>\<open>None\<close> for empty \<open>cs\<close> and otherwise the relaxation
  whose list of cycles is exactly \<open>cs\<close>, in that order; conversely the cycles of a
  returned relaxation are not empty and are the ones the successive calls find, and
  \<^verbatim>\<open>None\<close> is returned exactly when the first call already finds nothing, which is
  when the loop ends with no cycle collected.
\<close>

theorem Relaxation_from_stream_collects:
  "(GroundStateScfCycle_from_stream s = Inl e \<longrightarrow> Relaxation_from_stream s = Inl e)
   \<and> (GroundStateScfCycle_from_stream s = Inr (None, rest) \<longrightarrow>
        Relaxation_from_stream s = Inr (None, rest))
   \<and> (GroundStateScfCycle_from_stream s = Inr (Some c, rest) \<longrightarrow>
        Relaxation_from_stream s =
          (case Relaxation_from_stream rest of
             Inl e \<Rightarrow> Inl e
           | Inr (None, rest') \<Rightarrow> Inr (Some \<lparr>cycles = [c], history_cache = None\<rparr>, rest')
           | Inr (Some r, rest') \<Rightarrow>
               Inr (Some \<lparr>cycles = c # cycles r, history_cache = None\<rparr>, rest')))
   \<and> (scans s cs rest \<longrightarrow>
        Relaxation_from_stream s
          = Inr (if cs = [] then None else Some \<lparr>cycles = cs, history_cache = None\<rparr>, rest))
   \<and> (Relaxation_from_stream s = Inr (Some r, rest) \<longrightarrow>
        cycles r \<noteq> [] \<and> scans s (cycles r) rest)
   \<and> (Relaxation_from_stream s = Inr (None, rest) \<longleftrightarrow> scans s [] rest)
   \<and> (Relaxation_from_stream s = Inr (None, rest) \<longleftrightarrow> Relaxation_loop [] s = Inr ([], rest))"
proof (intro conjI impI)
  assume "GroundStateScfCycle_from_stream s = Inl e"
  then show "Relaxation_from_stream s = Inl e" by (rule Relaxation_from_stream_error)
next
  assume "GroundStateScfCycle_from_stream s = Inr (None, rest)"
  then show "Relaxation_from_stream s = Inr (None, rest)" by (rule Relaxation_from_stream_None)
next
  assume "GroundStateScfCycle_from_stream s = Inr (Some c, rest)"
  from Relaxation_from_stream_Some [OF this]
  show "Relaxation_from_stream s =
          (case Relaxation_from_stream rest of
             Inl e \<Rightarrow> Inl e
           | Inr (None, rest') \<Rightarrow> Inr (Some \<lparr>cycles = [c], history_cache = None\<rparr>, rest')
           | Inr (Some r, rest') \<Rightarrow>
               Inr (Some \<lparr>cycles = c # cycles r, history_cache = None\<rparr>, rest'))"
    by (simp add: Relaxation_init_def split: sum.splits prod.splits option.splits)
next
  assume "scans s cs rest"
  then show "Relaxation_from_stream s
          = Inr (if cs = [] then None else Some \<lparr>cycles = cs, history_cache = None\<rparr>, rest)"
    by (rule scans_result)
next
  assume r: "Relaxation_from_stream s = Inr (Some r, rest)"
  from result_scans [OF r] show "cycles r \<noteq> []" by simp
  from result_scans [OF r] show "scans s (cycles r) rest" by simp
next
  show "Relaxation_from_stream s = Inr (None, rest) \<longleftrightarrow> scans s [] rest"
    using result_scans [of s None rest] Relaxation_from_stream_None [of s rest] by auto
next
  show "Relaxation_from_stream s = Inr (None, rest) \<longleftrightarrow> Relaxation_loop [] s = Inr ([], rest)"
    by (rule Relaxation_from_stream_absent)
qed

lemmas from_stream_eval = GroundStateScfCycle_from_stream_def GroundStateScfCycle_MAGIC_def
  from_stream_def od_pop_def ScfCycle_init_def scan_eval header_line_def blank_line_def

lemma from_stream_end: "GroundStateScfCycle_from_stream [] = Inr (None, [])"
  by (simp add: from_stream_eval)

lemma from_stream_second_section:
  "GroundStateScfCycle_from_stream (second_section @ rest) = Inr (Some second_cycle, rest)"
  by (simp add: from_stream_eval second_section_def second_cycle_def)

lemma from_stream_two_sections:
  "GroundStateScfCycle_from_stream two_sections = Inr (Some example_cycle, second_section)"
  by (simp add: from_stream_eval two_sections_def example_cycle_def)

lemma from_stream_empty_section:
  "GroundStateScfCycle_from_stream ([header_line, blank_line] @ rest) = Inr (Some empty_cycle, rest)"
  by (simp add: from_stream_eval empty_cycle_def)

lemma from_stream_short_row:
  "GroundStateScfCycle_from_stream [header_line, ''ETOT 1'' @ [CHR 0x0A]] = Inl AssertionError"
  by (simp add: from_stream_eval)

lemma Relaxation_end: "Relaxation_from_stream [] = Inr (None, [])"
  by (rule Relaxation_from_stream_None [OF from_stream_end])

lemma Relaxation_second_section:
  "Relaxation_from_stream second_section = Inr (Some (Relaxation_init [second_cycle]), [])"
  using Relaxation_from_stream_Some [OF from_stream_second_section [of "[]"]]
  by (simp add: Relaxation_end)

lemma Relaxation_two_sections:
  "Relaxation_from_stream two_sections
     = Inr (Some (Relaxation_init [example_cycle, second_cycle]), [])"
  using Relaxation_from_stream_Some [OF from_stream_two_sections]
  by (simp add: Relaxation_second_section Relaxation_init_def)

lemma Relaxation_with_empty_section:
  "Relaxation_from_stream with_empty_section
     = Inr (Some (Relaxation_init [second_cycle, empty_cycle, second_cycle]), [])"
proof -
  have "Relaxation_from_stream ([header_line, blank_line] @ second_section)
          = Inr (Some (Relaxation_init [empty_cycle, second_cycle]), [])"
    using Relaxation_from_stream_Some [OF from_stream_empty_section [of second_section]]
    by (simp add: Relaxation_second_section Relaxation_init_def)
  with Relaxation_from_stream_Some
         [OF from_stream_second_section [of "[header_line, blank_line] @ second_section"]]
  show ?thesis
    by (simp add: with_empty_section_def Relaxation_init_def)
qed

theorem Relaxation_from_stream_collects_witness:
  "GroundStateScfCycle_from_stream [header_line, ''ETOT 1'' @ [CHR 0x0A]] = Inl AssertionError
   \<and> Relaxation_from_stream [header_line, ''ETOT 1'' @ [CHR 0x0A]] = Inl AssertionError
   \<and> GroundStateScfCycle_from_stream [] = Inr (None, [])
   \<and> scans [] [] []
   \<and> Relaxation_from_stream [] = Inr (None, [])
   \<and> Relaxation_loop [] [] = Inr ([], [])
   \<and> GroundStateScfCycle_from_stream two_sections = Inr (Some example_cycle, second_section)
   \<and> GroundStateScfCycle_from_stream second_section = Inr (Some second_cycle, [])
   \<and> scans two_sections [example_cycle, second_cycle] []
   \<and> Relaxation_from_stream second_section
       = Inr (Some \<lparr>cycles = [second_cycle], history_cache = None\<rparr>, [])
   \<and> Relaxation_from_stream two_sections
       = Inr (Some \<lparr>cycles = [example_cycle, second_cycle], history_cache = None\<rparr>, [])
   \<and> cycles \<lparr>cycles = [example_cycle, second_cycle], history_cache = None\<rparr> \<noteq> []
   \<and> scans two_sections
         (cycles \<lparr>cycles = [example_cycle, second_cycle], history_cache = None\<rparr>) []"
proof -
  let ?short = "[header_line, ''ETOT 1'' @ [CHR 0x0A]]"
  let ?r = "\<lparr>cycles = [example_cycle, second_cycle], history_cache = None\<rparr>"
  have sec: "GroundStateScfCycle_from_stream second_section = Inr (Some second_cycle, [])"
    using from_stream_second_section [of "[]"] by simp
  have sc0: "scans [] [] []"
    by (simp add: from_stream_end)
  have sc2: "scans two_sections [example_cycle, second_cycle] []"
    by (simp add: from_stream_two_sections sec from_stream_end)
  from Relaxation_from_stream_collects [of ?short AssertionError] from_stream_short_row
  have 1: "Relaxation_from_stream ?short = Inl AssertionError"
    by blast
  from Relaxation_from_stream_collects [of "[]" _ "[]"] from_stream_end
  have 2: "Relaxation_from_stream [] = Inr (None, [])"
    by blast
  with Relaxation_from_stream_collects [of "[]" _ "[]"]
  have 3: "Relaxation_loop [] [] = Inr ([], [])"
    by blast
  from Relaxation_from_stream_collects [of second_section _ "[]" second_cycle] sec
  have "Relaxation_from_stream second_section =
          (case Relaxation_from_stream [] of
             Inl e \<Rightarrow> Inl e
           | Inr (None, rest') \<Rightarrow> Inr (Some \<lparr>cycles = [second_cycle], history_cache = None\<rparr>, rest')
           | Inr (Some r, rest') \<Rightarrow>
               Inr (Some \<lparr>cycles = second_cycle # cycles r, history_cache = None\<rparr>, rest'))"
    by blast
  with 2 have 4: "Relaxation_from_stream second_section
                    = Inr (Some \<lparr>cycles = [second_cycle], history_cache = None\<rparr>, [])"
    by simp
  from Relaxation_from_stream_collects
         [of two_sections _ "[]" _ "[example_cycle, second_cycle]"] sc2
  have 5: "Relaxation_from_stream two_sections = Inr (Some ?r, [])"
    by simp
  from Relaxation_from_stream_collects [of two_sections _ "[]" _ _ ?r] 5
  have 6: "cycles ?r \<noteq> []" and 7: "scans two_sections (cycles ?r) []"
    by blast+
  from from_stream_short_row 1 from_stream_end sc0 2 3 from_stream_two_sections sec sc2 4 5 6 7
  show ?thesis by blast
qed

section \<open>Properties of \<^verbatim>\<open>Relaxation.history\<close>\<close>

text \<open>
  The specification's words for \<^verbatim>\<open>history[q]\<close>: the values of the quantity \<open>q\<close> in
  the last-iteration mappings of the cycles, in the order of the cycles.
\<close>

definition last_values :: "string \<Rightarrow> scf_cycle list \<Rightarrow> pyfloat list" where
  "last_values q cs =
     List.map_filter (\<lambda>c. case last_iteration c of Inl e \<Rightarrow> None | Inr d \<Rightarrow> map_of d q) cs"

lemma map_of_od_set: "map_of (od_set d k v) = (map_of d)(k \<mapsto> v)"
  by (induction d) (auto simp: fun_eq_iff)

lemma keys_od_set:
  "map fst (od_set d k v) = (if k \<in> set (map fst d) then map fst d else map fst d @ [k])"
proof (induction d)
  case Nil
  then show ?case by simp
next
  case (Cons a d)
  obtain k' v' where a: "a = (k', v')" by (cases a)
  show ?case
  proof (cases "k' = k")
    case True
    with a show ?thesis by simp
  next
    case False
    with a Cons.IH show ?thesis by (simp del: set_map)
  qed
qed

lemma distinct_od_set: "distinct (map fst d) \<Longrightarrow> distinct (map fst (od_set d k v))"
  by (simp add: keys_od_set)

lemma last_items_distinct:
  "last_items d fs = Inr d' \<Longrightarrow> distinct (map fst d) \<Longrightarrow> distinct (map fst d')"
proof (induction fs arbitrary: d)
  case Nil
  then show ?case by simp
next
  case (Cons a fs)
  obtain k v where a: "a = (k, v)" by (cases a)
  with Cons.prems have "last_items (od_set d k (last v)) fs = Inr d'"
    by (simp split: if_splits)
  from Cons.IH [OF this distinct_od_set [OF Cons.prems(2)]] show ?case .
qed

lemma last_iteration_distinct: "last_iteration c = Inr d \<Longrightarrow> distinct (map fst d)"
  using last_items_distinct [of "[]" "self_fields c" d] by (simp add: last_iteration_def)

lemma last_items_total:
  "\<forall>kv\<in>set fs. snd kv \<noteq> [] \<Longrightarrow> \<exists>d'. last_items d fs = Inr d'"
  by (induction fs arbitrary: d) auto

lemma last_items_map_of:
  "last_items d0 fs = Inr d \<Longrightarrow> distinct (map fst fs) \<Longrightarrow>
     map_of d q = (case map_of fs q of Some col \<Rightarrow> Some (last col) | None \<Rightarrow> map_of d0 q)"
proof (induction fs arbitrary: d0)
  case Nil
  then show ?case by simp
next
  case (Cons a fs)
  obtain k v where a: "a = (k, v)" by (cases a)
  with Cons.prems have run: "last_items (od_set d0 k (last v)) fs = Inr d"
    and dist: "distinct (map fst fs)" and fresh: "map_of fs k = None"
    by (auto simp: map_of_eq_None_iff split: if_splits)
  from Cons.IH [OF run dist] fresh a show ?case
    by (auto simp: map_of_od_set split: option.splits)
qed

lemma dd_get_append:
  "dd_get (dd_append h k v) q = (if q = k then dd_get h k @ [v] else dd_get h q)"
  by (simp add: dd_get_def dd_append_def map_of_od_set)

lemma history_add_get:
  "distinct (map fst d) \<Longrightarrow>
     dd_get (history_add h d) q
       = dd_get h q @ (case map_of d q of None \<Rightarrow> [] | Some v \<Rightarrow> [v])"
proof (induction d arbitrary: h)
  case Nil
  then show ?case by simp
next
  case (Cons a d)
  obtain k v where a: "a = (k, v)" by (cases a)
  with Cons.prems have dist: "distinct (map fst d)" and fresh: "map_of d k = None"
    by (auto simp: map_of_eq_None_iff)
  from Cons.IH [OF dist, of "dd_append h k v"] fresh a show ?case
    by (simp add: dd_get_append)
qed

lemma last_values_Cons:
  "last_iteration c = Inr d \<Longrightarrow>
     last_values q (c # cs)
       = (case map_of d q of None \<Rightarrow> [] | Some v \<Rightarrow> [v]) @ last_values q cs"
  by (simp add: last_values_def split: option.splits)

lemma history_loop_total:
  "\<forall>c\<in>set cs. \<forall>kv\<in>set (self_fields c). snd kv \<noteq> [] \<Longrightarrow>
     \<exists>h'. history_loop h cs = (h', None) \<and> (\<forall>q. dd_get h' q = dd_get h q @ last_values q cs)"
proof (induction cs arbitrary: h)
  case Nil
  then show ?case by (simp add: last_values_def)
next
  case (Cons c cs)
  from Cons.prems obtain d where d: "last_iteration c = Inr d"
    unfolding last_iteration_def using last_items_total [of "self_fields c" "[]"] by auto
  from Cons.prems Cons.IH [of "history_add h d"]
  obtain h' where h': "history_loop (history_add h d) cs = (h', None)"
    and get: "\<forall>q. dd_get h' q = dd_get (history_add h d) q @ last_values q cs"
    by auto
  from d h' have "history_loop h (c # cs) = (h', None)" by simp
  moreover have "dd_get h' q = dd_get h q @ last_values q (c # cs)" for q
    using get history_add_get [OF last_iteration_distinct [OF d], of h q]
    by (simp add: last_values_Cons [OF d])
  ultimately show ?case by blast
qed

lemma last_etotal_in_last_iteration:
  assumes "distinct (map fst (self_fields c))" and "last_iteration c = Inr d"
    and "last_of_column c k = Inr e"
  shows "map_of d k = Some e"
proof -
  from assms(3) obtain col where "map_of (self_fields c) k = Some col" and "e = last col"
    by (auto simp: last_of_column_def getitem_def od_get_def split: option.splits if_splits)
  with last_items_map_of [OF assms(2) [unfolded last_iteration_def] assms(1), of k]
  show ?thesis by simp
qed

lemma last_values_etotal:
  assumes "\<forall>c\<in>set cs. distinct (map fst (self_fields c))"
    and "\<forall>c\<in>set cs. \<forall>kv\<in>set (self_fields c). snd kv \<noteq> []"
    and "map (\<lambda>c. last_of_column c k) cs = map Inr es"
  shows "last_values k cs = es"
  using assms
proof (induction cs arbitrary: es)
  case Nil
  then show ?case by (simp add: last_values_def)
next
  case (Cons c cs)
  from Cons.prems(3) obtain e es' where es: "es = e # es'"
    and e: "last_of_column c k = Inr e" and rest: "map (\<lambda>c. last_of_column c k) cs = map Inr es'"
    by (cases es) auto
  from Cons.prems(2) obtain d where d: "last_iteration c = Inr d"
    unfolding last_iteration_def using last_items_total [of "self_fields c" "[]"] by auto
  from Cons.prems(1) have "distinct (map fst (self_fields c))" by simp
  from last_etotal_in_last_iteration [OF this d e] have "map_of d k = Some e" .
  moreover from Cons.IH [OF _ _ rest] Cons.prems(1,2) have "last_values k cs = es'" by simp
  ultimately show ?case using es by (simp add: last_values_Cons [OF d])
qed

text \<open>
  Claim C8, as the code has it. For a relaxation whose cycles have no empty column
  (each has at least one iteration) and whose history has not been read yet, the first
  read of \<^verbatim>\<open>history\<close> returns a dictionary in which every quantity \<open>q\<close> has the
  last-iteration values of \<open>q\<close> across the cycles in their order, and stores it; a
  later read returns the stored dictionary and changes nothing. When every cycle has a
  last total energy, \<^verbatim>\<open>history["Etot(hartree)"]\<close> is the list of these energies, so
  for two sections it is the pair of the two.
\<close>

theorem history_of_cycles:
  assumes "history_cache r = None"
    and "\<forall>c\<in>set (cycles r). \<forall>kv\<in>set (self_fields c). snd kv \<noteq> []"
  shows "\<exists>h. history r = (Inr h, r\<lparr>history_cache := Some h\<rparr>)
           \<and> (\<forall>q. dd_get h q = last_values q (cycles r))
           \<and> history (r\<lparr>history_cache := Some h\<rparr>) = (Inr h, r\<lparr>history_cache := Some h\<rparr>)
           \<and> (\<forall>es. (\<forall>c\<in>set (cycles r). distinct (map fst (self_fields c)))
                    \<and> map GroundStateScfCycle_last_etotal (cycles r) = map Inr es
                  \<longrightarrow> dd_get h ''Etot(hartree)'' = es)"
proof -
  from history_loop_total [OF assms(2), of "[]"]
  obtain h where loop: "history_loop [] (cycles r) = (h, None)"
    and get: "\<forall>q. dd_get h q = last_values q (cycles r)"
    by (auto simp: dd_get_def)
  from assms(1) loop have first: "history r = (Inr h, r\<lparr>history_cache := Some h\<rparr>)"
    by (simp add: history_def)
  have later: "history (r\<lparr>history_cache := Some h\<rparr>) = (Inr h, r\<lparr>history_cache := Some h\<rparr>)"
    by (simp add: history_def)
  have etot: "dd_get h ''Etot(hartree)'' = es"
    if "\<forall>c\<in>set (cycles r). distinct (map fst (self_fields c))"
      and "map GroundStateScfCycle_last_etotal (cycles r) = map Inr es" for es
  proof -
    from that(2) have "map (\<lambda>c. last_of_column c ''Etot(hartree)'') (cycles r) = map Inr es"
      by (simp add: GroundStateScfCycle_last_etotal_def [abs_def])
    from last_values_etotal [OF that(1) assms(2) this] get show ?thesis by simp
  qed
  from first get later etot show ?thesis by blast
qed

lemmas history_eval = history_def Relaxation_init_def last_iteration_def dd_append_def dd_get_def
  example_cycle_def second_cycle_def empty_cycle_def

theorem history_of_cycles_witness:
  "Relaxation_from_stream two_sections
     = Inr (Some (Relaxation_init [example_cycle, second_cycle]), [])
   \<and> length (cycles (Relaxation_init [example_cycle, second_cycle])) = 2
   \<and> history_cache (Relaxation_init [example_cycle, second_cycle]) = None
   \<and> GroundStateScfCycle_last_etotal example_cycle = Inr (Fin (-8.90))
   \<and> GroundStateScfCycle_last_etotal second_cycle = Inr (Fin (-9.00))
   \<and> (\<exists>h. history (Relaxation_init [example_cycle, second_cycle])
              = (Inr h, Relaxation_init [example_cycle, second_cycle]\<lparr>history_cache := Some h\<rparr>)
          \<and> dd_get h ''Etot(hartree)'' = [Fin (-8.90), Fin (-9.00)]
          \<and> dd_get h ''deltaE(h)'' = last_values ''deltaE(h)'' [example_cycle, second_cycle]
          \<and> history (Relaxation_init [example_cycle, second_cycle]\<lparr>history_cache := Some h\<rparr>)
              = (Inr h, Relaxation_init [example_cycle, second_cycle]\<lparr>history_cache := Some h\<rparr>))"
proof -
  let ?r = "Relaxation_init [example_cycle, second_cycle]"
  have cache: "history_cache ?r = None"
    by (simp add: Relaxation_init_def)
  have cols: "\<forall>c\<in>set (cycles ?r). \<forall>kv\<in>set (self_fields c). snd kv \<noteq> []"
    by (simp add: Relaxation_init_def example_cycle_def second_cycle_def)
  have dist: "\<forall>c\<in>set (cycles ?r). distinct (map fst (self_fields c))"
    by (simp add: Relaxation_init_def example_cycle_def second_cycle_def)
  have e1: "GroundStateScfCycle_last_etotal example_cycle = Inr (Fin (-8.90))"
    by (simp add: GroundStateScfCycle_last_etotal_def last_of_column_def getitem_def od_get_def
          example_cycle_def)
  have e2: "GroundStateScfCycle_last_etotal second_cycle = Inr (Fin (-9.00))"
    by (simp add: GroundStateScfCycle_last_etotal_def last_of_column_def getitem_def od_get_def
          second_cycle_def)
  from e1 e2 have es: "map GroundStateScfCycle_last_etotal (cycles ?r)
                         = map Inr [Fin (-8.90), Fin (-9.00)]"
    by (simp add: Relaxation_init_def)
  from history_of_cycles [OF cache cols]
  obtain h where h: "history ?r = (Inr h, ?r\<lparr>history_cache := Some h\<rparr>)"
      "\<forall>q. dd_get h q = last_values q (cycles ?r)"
      "history (?r\<lparr>history_cache := Some h\<rparr>) = (Inr h, ?r\<lparr>history_cache := Some h\<rparr>)"
      "\<forall>es. (\<forall>c\<in>set (cycles ?r). distinct (map fst (self_fields c)))
              \<and> map GroundStateScfCycle_last_etotal (cycles ?r) = map Inr es
            \<longrightarrow> dd_get h ''Etot(hartree)'' = es"
    by blast
  from h(4) dist es have etot: "dd_get h ''Etot(hartree)'' = [Fin (-8.90), Fin (-9.00)]"
    by blast
  from h(2) have delta: "dd_get h ''deltaE(h)'' = last_values ''deltaE(h)'' [example_cycle, second_cycle]"
    by (simp add: Relaxation_init_def)
  have len: "length (cycles ?r) = 2"
    by (simp add: Relaxation_init_def)
  from Relaxation_two_sections len cache e1 e2 h(1) etot delta h(3) show ?thesis
    by blast
qed

text \<open>
  Three sections of which the second has no data row: the first read of \<^verbatim>\<open>history\<close>
  raises \<^verbatim>\<open>IndexError\<close> at the second cycle, after the dictionary has been stored,
  and the second read returns the stored dictionary, which has the values of the first
  cycle only although the third cycle has a last iteration too.
\<close>

theorem history_after_empty_cycle:
  "Relaxation_from_stream with_empty_section
     = Inr (Some (Relaxation_init [second_cycle, empty_cycle, second_cycle]), [])
   \<and> fst (history (Relaxation_init [second_cycle, empty_cycle, second_cycle])) = Inl IndexError
   \<and> fst (history (snd (history (Relaxation_init [second_cycle, empty_cycle, second_cycle]))))
       = Inr [(''Etot(hartree)'', [Fin (-9.00)]), (''deltaE(h)'', [Fin (-0.20)])]
   \<and> last_iteration second_cycle
       = Inr [(''Etot(hartree)'', Fin (-9.00)), (''deltaE(h)'', Fin (-0.20))]"
proof -
  have "history (Relaxation_init [second_cycle, empty_cycle, second_cycle])
          = (Inl IndexError,
             Relaxation_init [second_cycle, empty_cycle, second_cycle]
               \<lparr>history_cache := Some [(''Etot(hartree)'', [Fin (-9.00)]), (''deltaE(h)'', [Fin (-0.20)])]\<rparr>)"
    by (simp add: history_eval)
  moreover have "last_iteration second_cycle
       = Inr [(''Etot(hartree)'', Fin (-9.00)), (''deltaE(h)'', Fin (-0.20))]"
    by (simp add: history_eval)
  ultimately show ?thesis
    using Relaxation_with_empty_section by (simp add: history_def)
qed

section \<open>Properties of \<^verbatim>\<open>monotonic\<close>\<close>

lemma increasing_loop_all:
  "increasing_loop atol vs = list_all (\<lambda>(v, vp). \<bar>vp - v\<bar> \<le> atol \<or> v < vp) (zip vs (tl vs))"
  by (induction atol vs rule: increasing_loop.induct) auto

lemma decreasing_loop_all:
  "decreasing_loop atol vs = list_all (\<lambda>(v, vp). \<bar>vp - v\<bar> \<le> atol \<or> vp < v) (zip vs (tl vs))"
  by (induction atol vs rule: decreasing_loop.induct) auto

lemma length_one_zip_tl: "length vs = 1 \<Longrightarrow> zip vs (tl vs) = []"
  by (cases vs) auto

text \<open>
  Claim C9. \<^verbatim>\<open>monotonic([1.2, 1.3, 1.4], mode="<")\<close> is \<^verbatim>\<open>False\<close> and
  \<^verbatim>\<open>monotonic([1.2, 1.3, 1.4], mode=">")\<close> is \<^verbatim>\<open>True\<close>, with the default tolerance,
  which is \<open>1e-8\<close>. In general mode \<^verbatim>\<open>">"\<close> asks every value to be followed by a
  larger one and mode \<^verbatim>\<open>"<"\<close> by a smaller one, where two consecutive values that
  differ by no more than \<open>atol\<close> pass as equal.
\<close>

theorem monotonic_doctest:
  "monotonic [1.2, 1.3, 1.4] ''<'' monotonic_default_atol = Inr False
   \<and> monotonic [1.2, 1.3, 1.4] ''>'' monotonic_default_atol = Inr True
   \<and> monotonic_default_atol = 0.00000001
   \<and> monotonic values ''>'' atol
       = Inr (list_all (\<lambda>(v, vp). \<bar>vp - v\<bar> \<le> atol \<or> v < vp) (zip values (tl values)))
   \<and> monotonic values ''<'' atol
       = Inr (list_all (\<lambda>(v, vp). \<bar>vp - v\<bar> \<le> atol \<or> vp < v) (zip values (tl values)))"
proof -
  have a: "monotonic [1.2, 1.3, 1.4] ''<'' monotonic_default_atol = Inr False"
    by (simp add: monotonic_def monotonic_default_atol_def)
  have b: "monotonic [1.2, 1.3, 1.4] ''>'' monotonic_default_atol = Inr True"
    by (simp add: monotonic_def monotonic_default_atol_def)
  have c: "monotonic_default_atol = 0.00000001"
    by (simp add: monotonic_default_atol_def)
  have d: "monotonic values ''>'' atol
       = Inr (list_all (\<lambda>(v, vp). \<bar>vp - v\<bar> \<le> atol \<or> v < vp) (zip values (tl values)))"
    by (simp add: monotonic_def increasing_loop_all length_one_zip_tl)
  have e: "monotonic values ''<'' atol
       = Inr (list_all (\<lambda>(v, vp). \<bar>vp - v\<bar> \<le> atol \<or> vp < v) (zip values (tl values)))"
    by (simp add: monotonic_def decreasing_loop_all length_one_zip_tl)
  from a b c d e show ?thesis by blast
qed

text \<open>
  Claim C10. On a list of one value \<^verbatim>\<open>monotonic\<close> returns \<^verbatim>\<open>True\<close> whatever the mode
  string is, also one that is neither \<^verbatim>\<open>"<"\<close> nor \<^verbatim>\<open>">"\<close>; when it raises, the
  exception is the \<^verbatim>\<open>ValueError\<close> of an unknown mode and the list does not have
  length one.
\<close>

theorem monotonic_singleton:
  "monotonic [v] mode atol = Inr True
   \<and> (monotonic values mode' atol' = Inl e \<longrightarrow>
        length values \<noteq> 1 \<and> e = ValueError \<and> mode' \<noteq> ''<'' \<and> mode' \<noteq> ''>'')"
  by (auto simp: monotonic_def split: if_splits)

theorem monotonic_singleton_witness:
  "monotonic [1] ''x'' 0 = Inr True \<and> monotonic [] ''x'' 0 = Inl ValueError
   \<and> length ([] :: real list) \<noteq> 1"
  using monotonic_singleton [of 1 "''x''" 0 "[]" "''x''" 0 ValueError]
  by (simp add: monotonic_def)

section \<open>Properties of \<^verbatim>\<open>get_cost\<close>\<close>

text \<open>
  Claim C3 asks \<^verbatim>\<open>get_cost\<close> to return, for a composition without a precomputed
  entry, the cost of the lowest-energy decomposition of that composition. The code asks
  the phase diagram for the decomposition of the fixed composition \<^verbatim>\<open>LiFeO2\<close>: for
  \<open>Fe2O3\<close> over the example database the entries of the systems \<^verbatim>\<open>Fe\<close>, \<^verbatim>\<open>O\<close> and
  \<^verbatim>\<open>Fe-O\<close> are collected, and the result is computed from the decomposition of
  \<^verbatim>\<open>LiFeO2\<close> over them, whatever the two library functions are; of the input only
  the number of atoms, 5, is used. For the precomputed formula \<^verbatim>\<open>FeO\<close> the result is
  the stored energy per atom times the number of atoms.
\<close>

theorem get_cost_decomposes_LiFeO2:
  "get_cost from_formula get_decomposition example_db Fe2O3
     = (case get_decomposition [Fe_entry, O_entry, FeO_entry] (from_formula ''LiFeO2'') of
          Inl err \<Rightarrow> Inl err
        | Inr d \<Rightarrow> Inr (sum_list (map (\<lambda>(k, v). energy k * v * 5) d)))
   \<and> get_cost from_formula get_decomposition example_db
        \<lparr>elements = [''Fe'', ''O''], reduced_formula = ''FeO'', num_atoms = 4\<rparr>
       = Inr (7 / 2 * 4)"
proof -
  have entries: "entries_list example_db [''Fe'', ''O''] = [Fe_entry, O_entry, FeO_entry]"
    by (simp add: entries_list_def example_db_def sorted_strs_def upt_rec numeral_2_eq_2)
  have "comp_energies example_db ''Fe2O3'' = None"
    by (simp add: example_db_def)
  with entries have a: "get_cost from_formula get_decomposition example_db Fe2O3
     = (case get_decomposition [Fe_entry, O_entry, FeO_entry] (from_formula ''LiFeO2'') of
          Inl err \<Rightarrow> Inl err
        | Inr d \<Rightarrow> Inr (sum_list (map (\<lambda>(k, v). energy k * v * 5) d)))"
    by (simp add: get_cost_def Fe2O3_def split: sum.splits)
  have b: "get_cost from_formula get_decomposition example_db
        \<lparr>elements = [''Fe'', ''O''], reduced_formula = ''FeO'', num_atoms = 4\<rparr>
       = Inr (7 / 2 * 4)"
    by (simp add: get_cost_def example_db_def)
  from a b show ?thesis by blast
qed

end
